theory Spec2Isabelle
  imports Complex_Main "HOL-Library.Word" "HOL-Library.Multiset"
    "HOL-Library.Char_ord" "HOL-Library.List_Lexorder"
begin

section \<open>Aletheia: the evaluation and belief engine\<close>

text \<open>
  A shallow embedding of \<^verbatim>\<open>src/aletheia/core.py\<close>, \<^verbatim>\<open>plugins.py\<close>,
  \<^verbatim>\<open>oracles.py\<close>, \<^verbatim>\<open>anchoring.py\<close> and of the class
  \<^verbatim>\<open>BetaBernoulliClaim\<close> of \<^verbatim>\<open>src/aletheia_epicompiler.py\<close>.

  Conventions. Python's unbounded \<^verbatim>\<open>int\<close> is \<^typ>\<open>int\<close>. Python's \<^verbatim>\<open>float\<close> is
  idealised as \<^typ>\<open>real\<close>: rounding and the finite range of doubles are not modelled.
  A Python \<^verbatim>\<open>str\<close> is a \<^typ>\<open>string\<close> whose characters are code points below 256.
  Every \<^verbatim>\<open>raise\<close> is a value \<open>Inl e\<close> of a sum type; a normal return is \<open>Inr v\<close>.
  Library code that the repository calls but does not contain is a parameter of the
  model: \<open>H\<close> is SHA-256 on byte strings (\<^verbatim>\<open>hashlib.sha256\<close>), \<open>mk_rng\<close> is
  \<^verbatim>\<open>random.Random(seed)\<close>, \<open>float_repr\<close> is \<^verbatim>\<open>float.__repr__\<close>, and \<open>order\<close> maps the
  futures submitted for one batch to the order in which
  \<^verbatim>\<open>concurrent.futures.as_completed\<close> yields them.
\<close>

subsection \<open>Exceptions\<close>

datatype error =
    KeyError string          \<comment> \<open>a dictionary lookup \<^verbatim>\<open>d[k]\<close> with \<^verbatim>\<open>k\<close> missing\<close>
  | ZeroDivisionError        \<comment> \<open>a division by zero\<close>
  | Raised string            \<comment> \<open>any other exception, raised by plugin code\<close>

subsection \<open>Bytes, text and digests\<close>

type_synonym byte = "8 word"

text \<open>\<^verbatim>\<open>str.encode()\<close>: UTF-8, one byte below 128 and two bytes from 128 to 255.\<close>

definition utf8_encode :: "string \<Rightarrow> byte list" where
  "utf8_encode s = concat (map (\<lambda>c. let n = (of_char c :: nat) in
       if n < 128 then [of_nat n] else [of_nat (192 + n div 64), of_nat (128 + n mod 64)]) s)"

text \<open>\<^verbatim>\<open>int.from_bytes(bs, "big")\<close>.\<close>

definition int_from_bytes_big :: "byte list \<Rightarrow> int" where
  "int_from_bytes_big bs = foldl (\<lambda>acc b. acc * 256 + uint b) 0 bs"

definition digit_char :: "nat \<Rightarrow> char" where
  "digit_char d = ''0123456789'' ! d"

fun str_nat :: "nat \<Rightarrow> string" where
  "str_nat n = (if n < 10 then [digit_char n] else str_nat (n div 10) @ [digit_char (n mod 10)])"

declare str_nat.simps [simp del]

text \<open>\<^verbatim>\<open>str(i)\<close> for an integer: decimal digits, with a sign when negative.\<close>

definition str_int :: "int \<Rightarrow> string" where
  "str_int i = (if i < 0 then CHR ''-'' # str_nat (nat (- i)) else str_nat (nat i))"

definition hexdigit :: "nat \<Rightarrow> char" where
  "hexdigit d = ''0123456789abcdef'' ! d"

definition hex_byte :: "byte \<Rightarrow> string" where
  "hex_byte b = [hexdigit (unat b div 16), hexdigit (unat b mod 16)]"

text \<open>\<^verbatim>\<open>bytes.hex()\<close>, which is what \<^verbatim>\<open>hexdigest()\<close> applies to the digest.\<close>

definition hex_of :: "byte list \<Rightarrow> string" where
  "hex_of bs = concat (map hex_byte bs)"

text \<open>
  A \<^verbatim>\<open>hashlib.sha256()\<close> object is the byte string fed to it so far; \<^verbatim>\<open>update\<close>
  appends, \<^verbatim>\<open>digest\<close> applies SHA-256 (the parameter \<open>H\<close>) to the whole.
\<close>

definition sha256_new :: "byte list" where
  "sha256_new = []"

definition sha256_update :: "byte list \<Rightarrow> byte list \<Rightarrow> byte list" where
  "sha256_update m data = m @ data"

definition sha256_digest :: "(byte list \<Rightarrow> byte list) \<Rightarrow> byte list \<Rightarrow> byte list" where
  "sha256_digest H m = H m"

definition sha256_hexdigest :: "(byte list \<Rightarrow> byte list) \<Rightarrow> byte list \<Rightarrow> string" where
  "sha256_hexdigest H m = hex_of (sha256_digest H m)"

subsection \<open>Deterministic seed derivation (core.py, lines 8-11)\<close>

text \<open>
  \<^verbatim>\<open>
  def derive_seed(master_seed: str, namespace: str, idx: int) -> int:
      m = hashlib.sha256()
      m.update(master_seed.encode()); m.update(b"|"); m.update(namespace.encode())
      m.update(b"|"); m.update(str(idx).encode())
      return int.from_bytes(m.digest()[:8], "big")
  \<close>
\<close>

definition derive_seed :: "(byte list \<Rightarrow> byte list) \<Rightarrow> string \<Rightarrow> string \<Rightarrow> int \<Rightarrow> int" where
  "derive_seed H master_seed namespace idx =
     (let m0 = sha256_new;
          m1 = sha256_update m0 (utf8_encode master_seed);
          m2 = sha256_update m1 [0x7C];
          m3 = sha256_update m2 (utf8_encode namespace);
          m4 = sha256_update m3 [0x7C];
          m5 = sha256_update m4 (utf8_encode (str_int idx))
      in int_from_bytes_big (take 8 (sha256_digest H m5)))"

subsection \<open>The rule-of-three bound (core.py, lines 65-67)\<close>

text \<open>Python's true division of floats raises on a zero divisor.\<close>

definition py_truediv :: "real \<Rightarrow> real \<Rightarrow> error + real" where
  "py_truediv a b = (if b = 0 then Inl ZeroDivisionError else Inr (a / b))"

text \<open>
  \<^verbatim>\<open>
  def rule_of_three_upper_bound(failures: int, n: int) -> Optional[float]:
      if failures == 0 and n > 0: return 3.0 / float(n)
      return None
  \<close>
\<close>

definition rule_of_three_upper_bound :: "int \<Rightarrow> int \<Rightarrow> error + real option" where
  "rule_of_three_upper_bound failures n =
     (if failures = 0 \<and> n > 0
      then (case py_truediv 3 (real_of_int n) of
              Inl e \<Rightarrow> Inl e
            | Inr q \<Rightarrow> Inr (Some q))
      else Inr None)"

subsection \<open>The epistemic IR (core.py, lines 14-63)\<close>

text \<open>
  A value of type \<^verbatim>\<open>Any\<close> that ends in a certificate is a JSON value; a Python
  \<^verbatim>\<open>dict\<close> keeps its insertion order, so it is an association list.
\<close>

datatype json =
    JNull | JBool bool | JInt int | JFloat real | JStr string
  | JList "json list" | JDict "(string \<times> json) list"

record Domain =
  name :: string
  params :: "(string \<times> json) list"

record ProofArtifact =
  kind :: string
  uri :: string
  hash :: "string option"

text \<open>
  The fields \<^verbatim>\<open>id\<close>, \<^verbatim>\<open>proposition\<close> and \<^verbatim>\<open>oracle\<close> of \<^verbatim>\<open>Claim\<close> are
  \<open>claim_id\<close>, \<open>proposition_text\<close> and \<open>oracle_name\<close> here.
\<close>

record Claim =
  claim_id :: string
  proposition_text :: string
  domain :: Domain
  adversary :: string
  oracle_name :: string
  power_alpha :: real
  trials :: int
  stop_on_first_failure :: bool
  prior :: "(string \<times> json) list"
  proofs :: "ProofArtifact list"

record ('i, 'o) TrialResult =
  idx :: int
  input_data :: 'i
  output_data :: 'o
  passed :: bool
  details :: "(string \<times> json) list"

text \<open>\<^verbatim>\<open>duration_sec\<close>, a wall-clock measurement, is left out of the result.\<close>

record ('i, 'o) ClaimResult =
  claim :: Claim
  failures :: int
  trials_run :: int
  sample_failures :: "('i, 'o) TrialResult list"
  upper95_failure_prob :: "real option"
  rng_commit :: string

record BeliefCertificate =
  certVersion :: string
  programHash :: string
  machine :: string
  createdAt :: real
  claims :: "json list"
  cert_proofs :: "json list"

subsection \<open>Registries (core.py, lines 70-84)\<close>

text \<open>
  A generator draws from the random source and so returns its new state with the
  input; the implementation under test receives that state. Each plugin may raise.
\<close>

type_synonym ('r, 'i) generator = "'r \<Rightarrow> (string \<times> json) list \<Rightarrow> error + 'i \<times> 'r"
type_synonym ('r, 'i, 'o) implementation = "'i \<Rightarrow> 'r \<Rightarrow> error + 'o"
type_synonym ('i, 'o) oracle_fn = "'i \<Rightarrow> 'o \<Rightarrow> error + bool \<times> (string \<times> json) list"

record ('r, 'i, 'o) registries =
  GEN_REGISTRY :: "string \<rightharpoonup> ('r, 'i) generator"
  ORACLE_REGISTRY :: "string \<rightharpoonup> ('i, 'o) oracle_fn"
  IMPL_REGISTRY :: "string \<rightharpoonup> ('r, 'i, 'o) implementation"

text \<open>\<^verbatim>\<open>d[k]\<close> on a registry.\<close>

definition lookup :: "(string \<rightharpoonup> 'a) \<Rightarrow> string \<Rightarrow> error + 'a" where
  "lookup d k = (case d k of None \<Rightarrow> Inl (KeyError k) | Some v \<Rightarrow> Inr v)"

subsection \<open>Parallel falsification (core.py, lines 87-133)\<close>

text \<open>
  \<^verbatim>\<open>
  def run_one(i: int) -> TrialResult:
      seed = derive_seed(master_seed, claim.id, i)
      rng = random.Random(seed)
      inp = gen(rng, claim.domain.params)
      out = impl(inp, rng)
      ok, details = oracle(inp, out)
      return TrialResult(idx=i, input_data=inp, output_data=out, passed=ok, details=details)
  \<close>
\<close>

definition run_one :: "(byte list \<Rightarrow> byte list) \<Rightarrow> (int \<Rightarrow> 'r) \<Rightarrow> ('r, 'i) generator
    \<Rightarrow> ('r, 'i, 'o) implementation \<Rightarrow> ('i, 'o) oracle_fn \<Rightarrow> string \<Rightarrow> Claim \<Rightarrow> int
    \<Rightarrow> error + ('i, 'o) TrialResult" where
  "run_one H mk_rng gen impl orc master_seed c i =
     (let seed = derive_seed H master_seed (claim_id c) i;
          rng = mk_rng seed
      in case gen rng (params (domain c)) of
           Inl e \<Rightarrow> Inl e
         | Inr (inp, rng') \<Rightarrow>
             (case impl inp rng' of
                Inl e \<Rightarrow> Inl e
              | Inr out \<Rightarrow>
                  (case orc inp out of
                     Inl e \<Rightarrow> Inl e
                   | Inr (ok, dets) \<Rightarrow>
                       Inr \<lparr>idx = i, input_data = inp, output_data = out,
                            passed = ok, details = dets\<rparr>)))"

text \<open>
  The variables the loops of \<^verbatim>\<open>parallel_trials\<close> update: \<^verbatim>\<open>results\<close>,
  \<^verbatim>\<open>failures\<close>, \<^verbatim>\<open>sample_failures\<close> and the cursor \<^verbatim>\<open>i\<close>; and the trial indices
  handed to \<^verbatim>\<open>ex.submit\<close> so far. The executor is left by a \<^verbatim>\<open>with\<close> block, which
  waits for every submitted future: each submitted trial runs to its end, whether or not
  its result is read.
\<close>

record ('i, 'o) engine_state =
  st_results :: "('i, 'o) TrialResult list"
  st_failures :: int
  st_sample_failures :: "('i, 'o) TrialResult list"
  st_i :: int
  st_submitted :: "int list"

definition batch :: int where
  "batch = 128"

text \<open>
  The inner loop, over the indices of one batch in the order of completion \<open>js\<close>:
  \<^verbatim>\<open>
  for fut in cf.as_completed(futs):
      tr = fut.result()
      results.append(tr)
      if not tr.passed:
          failures += 1
          if len(sample_failures) < 5:
              sample_failures.append(tr)
          if stop:
              i = claim.trials
              break
  \<close>
  \<^verbatim>\<open>fut.result()\<close> raises what the trial raised.
\<close>

fun collect :: "(int \<Rightarrow> error + ('i, 'o) TrialResult) \<Rightarrow> bool \<Rightarrow> int \<Rightarrow> int list
    \<Rightarrow> ('i, 'o) engine_state \<Rightarrow> error + ('i, 'o) engine_state" where
  "collect run stop n [] st = Inr st"
| "collect run stop n (j # js) st =
     (case run j of
        Inl e \<Rightarrow> Inl e
      | Inr tr \<Rightarrow>
          (let st1 = st\<lparr>st_results := st_results st @ [tr]\<rparr> in
           if \<not> passed tr then
             (let st2 = st1\<lparr>st_failures := st_failures st1 + 1\<rparr>;
                  st3 = (if length (st_sample_failures st2) < 5
                         then st2\<lparr>st_sample_failures := st_sample_failures st2 @ [tr]\<rparr>
                         else st2)
              in if stop then Inr (st3\<lparr>st_i := n\<rparr>) else collect run stop n js st3)
           else collect run stop n js st1))"

lemma collect_cursor:
  "collect run stop n js st = Inr st' \<Longrightarrow> st_i st' = st_i st \<or> st_i st' = n"
  by (induction js arbitrary: st) (auto split: sum.splits if_splits simp: Let_def)

text \<open>
  The outer loop:
  \<^verbatim>\<open>
  while i < claim.trials:
      idxs = list(range(i, min(i+batch, claim.trials)))
      futs = [ex.submit(run_one, j) for j in idxs]
      for fut in cf.as_completed(futs): ...
      i += batch
      if failures and stop:
          break
  \<close>
\<close>

function run_batches :: "(int \<Rightarrow> error + ('i, 'o) TrialResult) \<Rightarrow> (int list \<Rightarrow> int list) \<Rightarrow> bool
    \<Rightarrow> int \<Rightarrow> ('i, 'o) engine_state \<Rightarrow> error + ('i, 'o) engine_state" where
  "run_batches run order stop n st =
     (if st_i st < n then
        (let idxs = [st_i st .. min (st_i st + batch) n - 1];
             st0 = st\<lparr>st_submitted := st_submitted st @ idxs\<rparr>
         in case collect run stop n (order idxs) st0 of
              Inl e \<Rightarrow> Inl e
            | Inr st1 \<Rightarrow>
                (let st2 = st1\<lparr>st_i := st_i st1 + batch\<rparr>
                 in if st_failures st2 \<noteq> 0 \<and> stop then Inr st2
                    else run_batches run order stop n st2))
      else Inr st)"
  by pat_completeness auto
termination
proof (relation "measure (\<lambda>(run, order, stop, n, st). nat (n - st_i st))", goal_cases)
  case 1
  show ?case by simp
next
  case (2 run order stop n st idxs st0 st1 st2)
  from 2 have "st_i st1 = st_i st \<or> st_i st1 = n"
    using collect_cursor [of run stop n "order idxs" st0 st1] by auto
  with 2 show ?case by (auto simp: batch_def)
qed

declare run_batches.simps [simp del]

definition init_state :: "('i, 'o) engine_state" where
  "init_state = \<lparr>st_results = [], st_failures = 0, st_sample_failures = [],
                 st_i = 0, st_submitted = []\<rparr>"

text \<open>
  The three registry lookups of lines 88-90, in the order of the source, and the two
  loops: the state at line 128. The worker count \<^verbatim>\<open>max_workers\<close> decides only how
  trials interleave, which is the parameter \<open>order\<close>.
\<close>

definition trial_loop :: "(byte list \<Rightarrow> byte list) \<Rightarrow> (int \<Rightarrow> 'r) \<Rightarrow> (int list \<Rightarrow> int list)
    \<Rightarrow> ('r, 'i, 'o) registries \<Rightarrow> Claim \<Rightarrow> string \<Rightarrow> string
    \<Rightarrow> error + ('i, 'o) engine_state" where
  "trial_loop H mk_rng order reg c impl_name master_seed =
     (case lookup (GEN_REGISTRY reg) (adversary c) of
        Inl e \<Rightarrow> Inl e
      | Inr gen \<Rightarrow>
     (case lookup (ORACLE_REGISTRY reg) (oracle_name c) of
        Inl e \<Rightarrow> Inl e
      | Inr orc \<Rightarrow>
     (case lookup (IMPL_REGISTRY reg) impl_name of
        Inl e \<Rightarrow> Inl e
      | Inr impl \<Rightarrow>
          run_batches (run_one H mk_rng gen impl orc master_seed c) order
            (stop_on_first_failure c) (trials c) init_state)))"

definition parallel_trials :: "(byte list \<Rightarrow> byte list) \<Rightarrow> (int \<Rightarrow> 'r) \<Rightarrow> (int list \<Rightarrow> int list)
    \<Rightarrow> ('r, 'i, 'o) registries \<Rightarrow> Claim \<Rightarrow> string \<Rightarrow> string
    \<Rightarrow> error + ('i, 'o) ClaimResult" where
  "parallel_trials H mk_rng order reg c impl_name master_seed =
     (case trial_loop H mk_rng order reg c impl_name master_seed of
        Inl e \<Rightarrow> Inl e
      | Inr st \<Rightarrow>
          (let n_run = int (length (st_results st)) in
           case rule_of_three_upper_bound (st_failures st) n_run of
             Inl e \<Rightarrow> Inl e
           | Inr upper \<Rightarrow>
               Inr \<lparr>claim = c, failures = st_failures st, trials_run = n_run,
                    sample_failures = st_sample_failures st,
                    upper95_failure_prob = upper,
                    rng_commit = sha256_hexdigest H
                      (utf8_encode (master_seed @ ''|'' @ claim_id c @ ''|'' @ impl_name))\<rparr>))"

subsection \<open>Sorting plugins and their oracle (plugins.py, oracles.py)\<close>

text \<open>
  \<^verbatim>\<open>
  def quicksort_3way(a: List[int], rng: random.Random) -> List[int]:
      if len(a) <= 1: return a[:]
      pivot = a[len(a)//2]
      lt = [x for x in a if x < pivot]
      eq = [x for x in a if x == pivot]
      gt = [x for x in a if x > pivot]
      return quicksort_3way(lt, rng) + eq + quicksort_3way(gt, rng)
  \<close>
  The index \<^verbatim>\<open>len(a)//2\<close> is read only when \<^verbatim>\<open>len(a) >= 2\<close>, where it is in range.
\<close>

function quicksort_3way :: "int list \<Rightarrow> 'r \<Rightarrow> int list" where
  "quicksort_3way a rng =
     (if length a \<le> 1 then a
      else (let pivot = a ! (length a div 2);
                lt = [x \<leftarrow> a. x < pivot];
                eq = [x \<leftarrow> a. x = pivot];
                gt = [x \<leftarrow> a. x > pivot]
            in quicksort_3way lt rng @ eq @ quicksort_3way gt rng))"
  by pat_completeness auto
termination
proof (relation "measure (\<lambda>(a, rng). length a)", goal_cases)
  case 1
  show ?case by simp
next
  case (2 a rng pivot lt eq gt)
  then have "a ! (length a div 2) \<in> set a" by simp
  then have "length [x \<leftarrow> a. x < a ! (length a div 2)] < length a"
    by (rule length_filter_less) simp
  with 2 show ?case by simp
next
  case (3 a rng pivot lt eq gt)
  then have "a ! (length a div 2) \<in> set a" by simp
  then have "length [x \<leftarrow> a. x > a ! (length a div 2)] < length a"
    by (rule length_filter_less) simp
  with 3 show ?case by simp
qed

declare quicksort_3way.simps [simp del]

text \<open>
  \<^verbatim>\<open>
  def is_sorted(a):  return all(a[i] <= a[i+1] for i in range(len(a)-1))
  def is_permutation(a, b):  return Counter(a) == Counter(b)
  \<close>
  A \<^verbatim>\<open>Counter\<close> is a dictionary from each element to its number of occurrences; two
  dictionaries are equal when they hold the same key-value pairs.
\<close>

definition is_sorted :: "int list \<Rightarrow> bool" where
  "is_sorted a = list_all (\<lambda>i. a ! i \<le> a ! (i + 1)) [0 ..< length a - 1]"

definition Counter :: "int list \<Rightarrow> (int \<times> nat) list" where
  "Counter a = map (\<lambda>x. (x, count_list a x)) (remdups a)"

definition is_permutation :: "int list \<Rightarrow> int list \<Rightarrow> bool" where
  "is_permutation a b = (set (Counter a) = set (Counter b))"

text \<open>
  \<^verbatim>\<open>
  def sort_correctness_oracle(inp, out):
      ok = isinstance(out, list) and is_sorted(out) and is_permutation(inp, out)
      details = {}
      if not ok: details["reason"] = "not_sorted_or_not_permutation"
      return ok, details
  \<close>
  The output has the type of a list here, so \<^verbatim>\<open>isinstance(out, list)\<close> holds.
\<close>

definition sort_correctness_oracle :: "int list \<Rightarrow> int list \<Rightarrow> bool \<times> (string \<times> json) list" where
  "sort_correctness_oracle inp out =
     (let ok = (is_sorted out \<and> is_permutation inp out);
          dets = (if \<not> ok then [(''reason'', JStr ''not_sorted_or_not_permutation'')] else [])
      in (ok, dets))"

subsection \<open>The Beta-Bernoulli belief state (aletheia\_epicompiler.py, lines 98-114)\<close>




subsection \<open>Certificate hashing (core.py, lines 167-169; anchoring.py, lines 8-10)\<close>

text \<open>
  \<^verbatim>\<open>json.dumps(obj, sort_keys=True, separators=(",", ":"))\<close> with the default
  \<^verbatim>\<open>ensure_ascii=True\<close>. A string is quoted and every character outside the printable
  ASCII range, the quote and the backslash are escaped, as
  \<^verbatim>\<open>json.encoder.py_encode_basestring_ascii\<close> does.
\<close>

definition hex4 :: "nat \<Rightarrow> string" where
  "hex4 n = [hexdigit (n div 4096 mod 16), hexdigit (n div 256 mod 16),
             hexdigit (n div 16 mod 16), hexdigit (n mod 16)]"

definition escape_char :: "char \<Rightarrow> string" where
  "escape_char c =
     (let n = (of_char c :: nat) in
      if c = CHR 0x22 then [CHR 0x5C, CHR 0x22]
      else if c = CHR 0x5C then [CHR 0x5C, CHR 0x5C]
      else if c = CHR 0x0A then [CHR 0x5C, CHR ''n'']
      else if c = CHR 0x0D then [CHR 0x5C, CHR ''r'']
      else if c = CHR 0x09 then [CHR 0x5C, CHR ''t'']
      else if c = CHR 0x08 then [CHR 0x5C, CHR ''b'']
      else if c = CHR 0x0C then [CHR 0x5C, CHR ''f'']
      else if 32 \<le> n \<and> n \<le> 126 then [c]
      else [CHR 0x5C, CHR ''u''] @ hex4 n)"

definition encode_basestring_ascii :: "string \<Rightarrow> string" where
  "encode_basestring_ascii s = [CHR 0x22] @ concat (map escape_char s) @ [CHR 0x22]"

text \<open>\<^verbatim>\<open>sep.join(parts)\<close>.\<close>

fun join :: "string \<Rightarrow> string list \<Rightarrow> string" where
  "join sep [] = []"
| "join sep [x] = x"
| "join sep (x # y # ys) = x @ sep @ join sep (y # ys)"

text \<open>
  The items of a dictionary are sorted before they are written; keys are strings and
  distinct, so the order is the order of the keys (by code point, a proper prefix
  first). There is no whitespace: items are separated by a comma, key and value by a
  colon.
\<close>

fun dumps :: "(real \<Rightarrow> string) \<Rightarrow> json \<Rightarrow> string" where
  "dumps float_repr JNull = ''null''"
| "dumps float_repr (JBool b) = (if b then ''true'' else ''false'')"
| "dumps float_repr (JInt i) = str_int i"
| "dumps float_repr (JFloat x) = float_repr x"
| "dumps float_repr (JStr s) = encode_basestring_ascii s"
| "dumps float_repr (JList xs) = ''['' @ join '','' (map (dumps float_repr) xs) @ '']''"
| "dumps float_repr (JDict kvs) =
     ''{'' @ join '',''
        (map (\<lambda>(k, v). encode_basestring_ascii k @ '':'' @ dumps float_repr v)
           (sort_key fst kvs)) @ ''}''"

text \<open>
  \<^verbatim>\<open>dataclasses.asdict(cert)\<close>: the fields of \<^verbatim>\<open>BeliefCertificate\<close> in the order of
  their declaration.
\<close>

definition asdict :: "BeliefCertificate \<Rightarrow> json" where
  "asdict cert =
     JDict [(''certVersion'', JStr (certVersion cert)),
            (''programHash'', JStr (programHash cert)),
            (''machine'', JStr (machine cert)),
            (''createdAt'', JFloat (createdAt cert)),
            (''claims'', JList (claims cert)),
            (''proofs'', JList (cert_proofs cert))]"

text \<open>
  \<^verbatim>\<open>
  def certificate_hash(cert: BeliefCertificate) -> str:
      blob = json.dumps(asdict(cert), sort_keys=True, separators=(",",":")).encode()
      return "0x" + hashlib.sha256(blob).hexdigest()
  \<close>
\<close>

definition certificate_hash :: "(byte list \<Rightarrow> byte list) \<Rightarrow> (real \<Rightarrow> string) \<Rightarrow> BeliefCertificate
    \<Rightarrow> string" where
  "certificate_hash H float_repr cert =
     (let blob = utf8_encode (dumps float_repr (asdict cert))
      in ''0x'' @ sha256_hexdigest H (sha256_update sha256_new blob))"

text \<open>
  \<^verbatim>\<open>
  def certificate_hash_json(cert_obj: dict) -> str:
      blob = json.dumps(cert_obj, sort_keys=True, separators=(",",":")).encode()
      return "0x"+hashlib.sha256(blob).hexdigest()
  \<close>
\<close>

definition certificate_hash_json :: "(byte list \<Rightarrow> byte list) \<Rightarrow> (real \<Rightarrow> string) \<Rightarrow> json
    \<Rightarrow> string" where
  "certificate_hash_json H float_repr cert_obj =
     (let blob = utf8_encode (dumps float_repr cert_obj)
      in ''0x'' @ sha256_hexdigest H (sha256_update sha256_new blob))"

text \<open>
  Equality of logical content: two JSON values are equal as mappings when they differ
  at most in the insertion order of their dictionaries, at any depth. A dictionary has
  distinct keys.
\<close>

inductive json_eq :: "json \<Rightarrow> json \<Rightarrow> bool" where
  Null: "json_eq JNull JNull"
| Bool: "json_eq (JBool b) (JBool b)"
| Int: "json_eq (JInt i) (JInt i)"
| Float: "json_eq (JFloat x) (JFloat x)"
| Str: "json_eq (JStr s) (JStr s)"
| List: "list_all2 json_eq xs ys \<Longrightarrow> json_eq (JList xs) (JList ys)"
| Dict: "distinct (map fst kvs) \<Longrightarrow> distinct (map fst kvs')
     \<Longrightarrow> set (map fst kvs) = set (map fst kvs')
     \<Longrightarrow> (\<forall>k v v'. (k, v) \<in> set kvs \<and> (k, v') \<in> set kvs' \<longrightarrow> json_eq v v')
     \<Longrightarrow> json_eq (JDict kvs) (JDict kvs')"

subsection \<open>Accounting invariant of the engine\<close>

text \<open>The number of failing outcomes in a list of trial outcomes.\<close>

abbreviation n_failed :: "('i, 'o) TrialResult list \<Rightarrow> int" where
  "n_failed rs \<equiv> int (length (filter (\<lambda>t. \<not> passed t) rs))"

text \<open>
  What holds of the loop variables at every loop head: the outcomes in \<^verbatim>\<open>results\<close> are
  the outcomes of distinct submitted trials that returned, \<^verbatim>\<open>failures\<close> counts the
  failing ones among them, and unless an early stop was triggered every submitted trial
  has been collected.
\<close>

definition accounted :: "(int \<Rightarrow> error + ('i, 'o) TrialResult) \<Rightarrow> bool \<Rightarrow> ('i, 'o) engine_state \<Rightarrow> bool" where
  "accounted run stop st \<longleftrightarrow>
     (\<exists>js. distinct js \<and> set js \<subseteq> set (st_submitted st)
        \<and> (\<forall>j \<in> set js. \<exists>tr. run j = Inr tr)
        \<and> st_results st = map (\<lambda>j. projr (run j)) js
        \<and> ((stop \<and> st_failures st \<noteq> 0) \<or> set js = set (st_submitted st)))
     \<and> st_failures st = n_failed (st_results st)
     \<and> distinct (st_submitted st)
     \<and> (\<forall>j \<in> set (st_submitted st). j < st_i st)"

subsection \<open>Trials that ran to completion\<close>


subsection \<open>Concrete plugins and claims for the worked examples\<close>

text \<open>
  A stand-in for SHA-256 (any function on byte strings serves: the theorems hold for
  every \<open>H\<close>), a generator that returns one fixed list, the repository's sorting oracle
  and three implementations as they are registered: the repository's
  \<^verbatim>\<open>quicksort3\<close>, one that returns its input unchanged, and one that raises.
\<close>

definition toy_sha :: "byte list \<Rightarrow> byte list" where
  "toy_sha bs = replicate 32 (of_nat (length bs))"

definition gen_fixed :: "(unit, int list) generator" where
  "gen_fixed rng p = Inr ([3, 1, 3, 2], rng)"

definition oracle_sort_correctness :: "(int list, int list) oracle_fn" where
  "oracle_sort_correctness inp out = Inr (sort_correctness_oracle inp out)"

definition impl_quicksort3 :: "('r, int list, int list) implementation" where
  "impl_quicksort3 a rng = Inr (quicksort_3way a rng)"

definition impl_identity :: "(unit, int list, int list) implementation" where
  "impl_identity a rng = Inr a"

definition impl_raising :: "(unit, int list, int list) implementation" where
  "impl_raising a rng = Inl (Raised ''boom'')"

definition demo_registries :: "(unit, int list, int list) registries" where
  "demo_registries =
     \<lparr>GEN_REGISTRY = [''fixed'' \<mapsto> gen_fixed],
      ORACLE_REGISTRY = [''sort_correctness'' \<mapsto> oracle_sort_correctness],
      IMPL_REGISTRY = [''quicksort3'' \<mapsto> impl_quicksort3,
                       ''identity'' \<mapsto> impl_identity,
                       ''raising'' \<mapsto> impl_raising]\<rparr>"

definition demo_claim :: "int \<Rightarrow> bool \<Rightarrow> Claim" where
  "demo_claim n stop =
     \<lparr>claim_id = ''SortsCorrect'', proposition_text = ''sorts correctly'',
      domain = \<lparr>name = ''int_array'', params = []\<rparr>,
      adversary = ''fixed'', oracle_name = ''sort_correctness'', power_alpha = 0.05,
      trials = n, stop_on_first_failure = stop, prior = [], proofs = []\<rparr>"

text \<open>One trial, the two loops and the whole evaluation with these plugins.\<close>

definition demo_run :: "(unit, int list, int list) implementation \<Rightarrow> Claim \<Rightarrow> int
    \<Rightarrow> error + (int list, int list) TrialResult" where
  "demo_run impl c = run_one toy_sha (\<lambda>seed. ()) gen_fixed impl oracle_sort_correctness ''seed'' c"

definition demo_loop :: "(int list \<Rightarrow> int list) \<Rightarrow> string \<Rightarrow> Claim
    \<Rightarrow> error + (int list, int list) engine_state" where
  "demo_loop order impl_name c =
     trial_loop toy_sha (\<lambda>seed. ()) order demo_registries c impl_name ''seed''"

definition demo_trials :: "(int list \<Rightarrow> int list) \<Rightarrow> string \<Rightarrow> Claim
    \<Rightarrow> error + (int list, int list) ClaimResult" where
  "demo_trials order impl_name c =
     parallel_trials toy_sha (\<lambda>seed. ()) order demo_registries c impl_name ''seed''"

text \<open>
  Two summaries of one claim result with the same fields inserted in different orders,
  and a certificate around a summary.
\<close>

definition claim_summary_a :: json where
  "claim_summary_a =
     JDict [(''id'', JStr ''SortsCorrect''),
            (''results'', JDict [(''failures'', JInt 0), (''trialsRun'', JInt 3)])]"

definition claim_summary_b :: json where
  "claim_summary_b =
     JDict [(''results'', JDict [(''trialsRun'', JInt 3), (''failures'', JInt 0)]),
            (''id'', JStr ''SortsCorrect'')]"

definition demo_cert :: "json \<Rightarrow> BeliefCertificate" where
  "demo_cert summary =
     \<lparr>certVersion = ''1.0'', programHash = ''0xabc'', machine = ''host'', createdAt = 1.5,
      claims = [summary], cert_proofs = []\<rparr>"

section \<open>Theorems\<close>

subsection \<open>The rule-of-three bound\<close>


lemma rule_of_three_zero_failures:
  "0 < n \<Longrightarrow> rule_of_three_upper_bound 0 n = Inr (Some (3 / real_of_int n))"
  by (simp add: rule_of_three_upper_bound_def py_truediv_def)

lemma rule_of_three_no_bound:
  "k \<noteq> 0 \<or> n \<le> 0 \<Longrightarrow> rule_of_three_upper_bound k n = Inr None"
  by (auto simp: rule_of_three_upper_bound_def)



subsection \<open>The two loops of the engine\<close>

lemma collect_Inr:
  "collect run stop n js st = Inr st' \<Longrightarrow>
   \<exists>js1 js2. js = js1 @ js2
     \<and> (\<forall>j \<in> set js1. \<exists>tr. run j = Inr tr)
     \<and> st_results st' = st_results st @ map (\<lambda>j. projr (run j)) js1
     \<and> st_failures st' = st_failures st + n_failed (map (\<lambda>j. projr (run j)) js1)
     \<and> st_submitted st' = st_submitted st
     \<and> ((js2 = [] \<and> st_i st' = st_i st) \<or> (stop \<and> st_i st' = n \<and> st_failures st < st_failures st'))"
proof (induction js arbitrary: st)
  case Nil
  then show ?case by simp
next
  case (Cons j js)
  from Cons.prems obtain tr where tr: "run j = Inr tr"
    by (auto split: sum.splits)
  show ?case
  proof (cases "\<not> passed tr \<and> stop")
    case True
    with Cons.prems tr have "st' = (if length (st_sample_failures st) < 5
        then st\<lparr>st_results := st_results st @ [tr], st_failures := st_failures st + 1,
                st_sample_failures := st_sample_failures st @ [tr], st_i := n\<rparr>
        else st\<lparr>st_results := st_results st @ [tr], st_failures := st_failures st + 1, st_i := n\<rparr>)"
      by (auto simp: Let_def split: if_splits)
    with True tr show ?thesis
      by (intro exI [of _ "[j]"] exI [of _ js]) (auto split: if_splits)
  next
    case False
    define st1 where "st1 = (if passed tr then st\<lparr>st_results := st_results st @ [tr]\<rparr>
       else if length (st_sample_failures st) < 5
        then st\<lparr>st_results := st_results st @ [tr], st_failures := st_failures st + 1,
                st_sample_failures := st_sample_failures st @ [tr]\<rparr>
        else st\<lparr>st_results := st_results st @ [tr], st_failures := st_failures st + 1\<rparr>)"
    from False Cons.prems tr have "collect run stop n js st1 = Inr st'"
      by (auto simp: Let_def st1_def split: if_splits)
    from Cons.IH [OF this] obtain js1 js2 where
      *: "js = js1 @ js2" "\<forall>j \<in> set js1. \<exists>tr. run j = Inr tr"
         "st_results st' = st_results st1 @ map (\<lambda>j. projr (run j)) js1"
         "st_failures st' = st_failures st1 + n_failed (map (\<lambda>j. projr (run j)) js1)"
         "st_submitted st' = st_submitted st1"
         "(js2 = [] \<and> st_i st' = st_i st1) \<or> (stop \<and> st_i st' = n \<and> st_failures st1 < st_failures st')"
      by blast
    have st1: "st_results st1 = st_results st @ [tr]" "st_submitted st1 = st_submitted st"
      "st_i st1 = st_i st" "st_failures st1 = st_failures st + (if passed tr then 0 else 1)"
      by (auto simp: st1_def)
    show ?thesis
      using * tr st1
      by (intro exI [of _ "j # js1"] exI [of _ js2]) auto
  qed
qed

lemma collect_Inl:
  "collect run stop n js st = Inl e \<Longrightarrow> \<exists>j \<in> set js. run j = Inl e"
  by (induction js arbitrary: st) (auto split: sum.splits if_splits simp: Let_def)



lemma accounted_step:
  assumes perm: "mset (order idxs) = mset idxs"
    and idxs: "idxs = [st_i st .. min (st_i st + batch) n - 1]"
    and lt: "st_i st < n"
    and col: "collect run stop n (order idxs) (st\<lparr>st_submitted := st_submitted st @ idxs\<rparr>) = Inr st1"
    and acc: "accounted run stop st"
  shows "accounted run stop (st1\<lparr>st_i := st_i st1 + batch\<rparr>)"
proof -
  from acc obtain js where js: "distinct js" "set js \<subseteq> set (st_submitted st)"
      "\<forall>j \<in> set js. \<exists>tr. run j = Inr tr" "st_results st = map (\<lambda>j. projr (run j)) js"
      "(stop \<and> st_failures st \<noteq> 0) \<or> set js = set (st_submitted st)"
    and fl: "st_failures st = n_failed (st_results st)"
    and ds: "distinct (st_submitted st)" and below: "\<forall>j \<in> set (st_submitted st). j < st_i st"
    unfolding accounted_def by blast
  from collect_Inr [OF col] obtain js1 js2 where
    c: "order idxs = js1 @ js2" "\<forall>j \<in> set js1. \<exists>tr. run j = Inr tr"
       "st_results st1 = st_results st @ map (\<lambda>j. projr (run j)) js1"
       "st_failures st1 = st_failures st + n_failed (map (\<lambda>j. projr (run j)) js1)"
       "st_submitted st1 = st_submitted st @ idxs"
       "(js2 = [] \<and> st_i st1 = st_i st) \<or> (stop \<and> st_i st1 = n \<and> st_failures st < st_failures st1)"
    by auto
  have set_o: "set (order idxs) = set idxs" using perm by (rule mset_eq_setD)
  have dist_idxs: "distinct idxs" by (simp add: idxs)
  have dist_o: "distinct (order idxs)"
    using perm dist_idxs by (metis distinct_count_atmost_1 set_o)
  have in_idxs: "\<forall>j \<in> set idxs. st_i st \<le> j \<and> j < n \<and> j < st_i st + batch"
    by (auto simp: idxs)
  have cur: "st_i st1 = st_i st \<or> st_i st1 = n" using c(6) by auto
  have nonneg: "0 \<le> st_failures st" using fl by simp
  let ?js = "js @ js1"
  have js1_sub: "set js1 \<subseteq> set idxs" using c(1) set_o by auto
  have d1: "distinct ?js"
    using js(1,2) below js1_sub in_idxs dist_o c(1) by (fastforce simp: distinct_append)
  have d2: "set ?js \<subseteq> set (st_submitted st @ idxs)" using js(2) js1_sub by auto
  have d3: "\<forall>j \<in> set ?js. \<exists>tr. run j = Inr tr" using js(3) c(2) by auto
  have d4: "st_results st1 = map (\<lambda>j. projr (run j)) ?js" using js(4) c(3) by simp
  have d5: "(stop \<and> st_failures st1 \<noteq> 0) \<or> set ?js = set (st_submitted st @ idxs)"
  proof (cases "stop \<and> st_failures st1 \<noteq> 0")
    case True then show ?thesis by simp
  next
    case False
    with c(6) nonneg have e: "js2 = []" by auto
    from False c(4) nonneg have "\<not> (stop \<and> st_failures st \<noteq> 0)" by auto
    with js(5) have "set js = set (st_submitted st)" by simp
    with e c(1) set_o show ?thesis by auto
  qed
  have d6: "st_failures st1 = n_failed (st_results st1)" using fl c(3,4) by simp
  have d7: "distinct (st_submitted st @ idxs)"
    using ds dist_idxs below in_idxs by (fastforce simp: distinct_append)
  have d8: "\<forall>j \<in> set (st_submitted st @ idxs). j < st_i st1 + batch"
    using below in_idxs cur lt by (fastforce simp: batch_def)
  show ?thesis
    unfolding accounted_def using d1 d2 d3 d4 d5 d6 d7 d8 c(5)
    by (auto intro!: exI [of _ ?js])
qed

lemma run_batches_accounted:
  assumes "\<And>xs. mset (order xs) = mset xs"
    and "run_batches run order stop n st = Inr st'"
    and "accounted run stop st"
  shows "accounted run stop st'"
  using assms
proof (induction run order stop n st rule: run_batches.induct)
  case (1 run order stop n st)
  show ?case
  proof (cases "st_i st < n")
    case False
    with "1.prems" show ?thesis by (simp add: run_batches.simps)
  next
    case True
    define idxs where "idxs = [st_i st .. min (st_i st + batch) n - 1]"
    define st0 where "st0 = st\<lparr>st_submitted := st_submitted st @ idxs\<rparr>"
    from True "1.prems"(2) obtain st1 where col: "collect run stop n (order idxs) st0 = Inr st1"
      by (subst (asm) run_batches.simps) (auto simp: Let_def idxs_def st0_def split: sum.splits)
    define st2 where "st2 = st1\<lparr>st_i := st_i st1 + batch\<rparr>"
    have acc2: "accounted run stop st2"
      unfolding st2_def
      using accounted_step [where order = order and idxs = idxs and st = st and n = n
          and run = run and stop = stop and ?st1.0 = st1]
        "1.prems"(1) idxs_def True col "1.prems"(3)
      by (simp add: st0_def)
    show ?thesis
    proof (cases "st_failures st2 \<noteq> 0 \<and> stop")
      case stopped: True
      with True col "1.prems"(2) have "st' = st2"
        by (subst (asm) run_batches.simps) (auto simp: Let_def idxs_def st0_def st2_def)
      with acc2 show ?thesis by simp
    next
      case cont: False
      with True col "1.prems"(2) have r: "run_batches run order stop n st2 = Inr st'"
        by (subst (asm) run_batches.simps) (auto simp: Let_def idxs_def st0_def st2_def)
      show ?thesis
        by (rule "1.IH" [OF True idxs_def st0_def col st2_def cont "1.prems"(1) r acc2])
    qed
  qed
qed


lemma upto_batch_split:
  "i < n \<Longrightarrow> [i .. min (i + batch) n - 1] @ [i + batch .. n - 1] = [i .. n - 1]"
proof (cases "i + batch \<le> n")
  case True
  assume "i < n"
  have "[i .. n - 1] = [i .. (i + batch) - 1] @ [(i + batch) - 1 + 1 .. n - 1]"
    using True by (intro upto_split2) (auto simp: batch_def)
  with True show ?thesis by (simp add: min_def)
next
  case False
  then show ?thesis by (simp add: min_def)
qed

lemma run_batches_submitted:
  assumes "run_batches run order stop n st = Inr st'" and "0 \<le> st_failures st"
  shows "(stop \<and> st_failures st' \<noteq> 0) \<or> st_submitted st' = st_submitted st @ [st_i st .. n - 1]"
  using assms
proof (induction run order stop n st rule: run_batches.induct)
  case (1 run order stop n st)
  show ?case
  proof (cases "st_i st < n")
    case False
    with "1.prems" show ?thesis by (simp add: run_batches.simps)
  next
    case True
    define idxs where "idxs = [st_i st .. min (st_i st + batch) n - 1]"
    define st0 where "st0 = st\<lparr>st_submitted := st_submitted st @ idxs\<rparr>"
    from True "1.prems"(1) obtain st1 where col: "collect run stop n (order idxs) st0 = Inr st1"
      by (subst (asm) run_batches.simps) (auto simp: Let_def idxs_def st0_def split: sum.splits)
    define st2 where "st2 = st1\<lparr>st_i := st_i st1 + batch\<rparr>"
    from collect_Inr [OF col] obtain js1 js2 where
      c: "st_failures st1 = st_failures st0 + n_failed (map (\<lambda>j. projr (run j)) js1)"
         "st_submitted st1 = st_submitted st0"
         "(js2 = [] \<and> st_i st1 = st_i st0) \<or> (stop \<and> st_i st1 = n \<and> st_failures st0 < st_failures st1)"
      by auto
    have nonneg: "0 \<le> st_failures st2" using c(1) "1.prems"(2) by (simp add: st2_def st0_def)
    show ?thesis
    proof (cases "st_failures st2 \<noteq> 0 \<and> stop")
      case stopped: True
      with True col "1.prems"(1) have "st' = st2"
        by (subst (asm) run_batches.simps) (auto simp: Let_def idxs_def st0_def st2_def)
      with stopped show ?thesis by simp
    next
      case cont: False
      with True col "1.prems"(1) have r: "run_batches run order stop n st2 = Inr st'"
        by (subst (asm) run_batches.simps) (auto simp: Let_def idxs_def st0_def st2_def)
      from "1.IH" [OF True idxs_def st0_def col st2_def cont r nonneg]
      have ih: "(stop \<and> st_failures st' \<noteq> 0) \<or> st_submitted st' = st_submitted st2 @ [st_i st2 .. n - 1]" .
      from cont c(3) "1.prems"(2) have "st_i st1 = st_i st"
        by (auto simp: st2_def st0_def)
      then have "st_submitted st2 @ [st_i st2 .. n - 1] = st_submitted st @ [st_i st .. n - 1]"
        using c(2) upto_batch_split [OF True] by (simp add: st2_def st0_def idxs_def)
      with ih show ?thesis by simp
    qed
  qed
qed


lemma run_batches_Inl:
  assumes "\<And>xs. set (order xs) \<subseteq> set xs"
    and "run_batches run order stop n st = Inl e"
  shows "\<exists>j. st_i st \<le> j \<and> j < n \<and> run j = Inl e"
  using assms
proof (induction run order stop n st rule: run_batches.induct)
  case (1 run order stop n st)
  show ?case
  proof (cases "st_i st < n")
    case False
    with "1.prems" show ?thesis by (simp add: run_batches.simps)
  next
    case True
    define idxs where "idxs = [st_i st .. min (st_i st + batch) n - 1]"
    define st0 where "st0 = st\<lparr>st_submitted := st_submitted st @ idxs\<rparr>"
    show ?thesis
    proof (cases "collect run stop n (order idxs) st0")
      case (Inl e')
      with True "1.prems"(2) have "e' = e"
        by (subst (asm) run_batches.simps) (auto simp: Let_def idxs_def st0_def)
      with Inl collect_Inl obtain j where "j \<in> set (order idxs)" "run j = Inl e" by blast
      with "1.prems"(1) [of idxs] have "j \<in> set idxs" by blast
      then have "st_i st \<le> j \<and> j < n" by (auto simp: idxs_def)
      with \<open>run j = Inl e\<close> show ?thesis by blast
    next
      case (Inr st1)
      define st2 where "st2 = st1\<lparr>st_i := st_i st1 + batch\<rparr>"
      from True Inr "1.prems"(2) have cont: "\<not> (st_failures st2 \<noteq> 0 \<and> stop)"
        by (subst (asm) run_batches.simps) (auto simp: Let_def idxs_def st0_def st2_def)
      with True Inr "1.prems"(2) have r: "run_batches run order stop n st2 = Inl e"
        by (subst (asm) run_batches.simps) (auto simp: Let_def idxs_def st0_def st2_def)
      from "1.IH" [OF True idxs_def st0_def Inr st2_def cont "1.prems"(1) r]
      obtain j where j: "st_i st2 \<le> j" "j < n" "run j = Inl e" by blast
      from collect_cursor [OF Inr] True have "st_i st \<le> st_i st2"
        by (auto simp: st2_def st0_def batch_def)
      with j(1) have "st_i st \<le> j" by linarith
      with j(2,3) show ?thesis by blast
    qed
  qed
qed

lemma run_one_idx:
  "run_one H mk_rng gen impl orc master_seed c j = Inr tr \<Longrightarrow> idx tr = j"
  by (auto simp: run_one_def Let_def split: sum.splits prod.splits)


lemma accounted_init: "accounted run stop init_state"
  by (simp add: accounted_def init_state_def)

lemma trial_loop_lookup:
  assumes "GEN_REGISTRY reg (adversary c) = Some gen"
    and "ORACLE_REGISTRY reg (oracle_name c) = Some orc"
    and "IMPL_REGISTRY reg impl_name = Some impl"
  shows "trial_loop H mk_rng order reg c impl_name master_seed =
     run_batches (run_one H mk_rng gen impl orc master_seed c) order
       (stop_on_first_failure c) (trials c) init_state"
  using assms by (simp add: trial_loop_def lookup_def)



lemma parallel_trials_Inl:
  "trial_loop H mk_rng order reg c impl_name master_seed = Inl e \<Longrightarrow>
   parallel_trials H mk_rng order reg c impl_name master_seed = Inl e"
  by (simp add: parallel_trials_def)

lemma trial_loop_accounted:
  assumes perm: "\<forall>xs. mset (order xs) = mset xs"
    and gen: "GEN_REGISTRY reg (adversary c) = Some gen"
    and orc: "ORACLE_REGISTRY reg (oracle_name c) = Some orc"
    and impl: "IMPL_REGISTRY reg impl_name = Some impl"
    and loop: "trial_loop H mk_rng order reg c impl_name master_seed = Inr st"
  shows "st_failures st = n_failed (st_results st)
      \<and> (\<forall>tr \<in> set (st_results st). run_one H mk_rng gen impl orc master_seed c (idx tr) = Inr tr)
      \<and> distinct (map idx (st_results st))
      \<and> set (map idx (st_results st)) \<subseteq> set (st_submitted st)
      \<and> (\<not> stop_on_first_failure c \<or> st_failures st = 0 \<longrightarrow>
           set (map idx (st_results st)) = set (st_submitted st)
           \<and> st_submitted st = [0 .. trials c - 1])"
proof -
  let ?run = "run_one H mk_rng gen impl orc master_seed c"
  let ?stop = "stop_on_first_failure c"
  from loop have rb: "run_batches ?run order ?stop (trials c) init_state = Inr st"
    by (simp add: trial_loop_lookup [OF gen orc impl])
  from perm have perm': "\<And>xs. mset (order xs) = mset xs" by simp
  have "accounted ?run ?stop st"
    by (rule run_batches_accounted [OF perm' rb accounted_init])
  then obtain js where js: "distinct js" "set js \<subseteq> set (st_submitted st)"
      "\<forall>j \<in> set js. \<exists>tr. ?run j = Inr tr" "st_results st = map (\<lambda>j. projr (?run j)) js"
      "(?stop \<and> st_failures st \<noteq> 0) \<or> set js = set (st_submitted st)"
    and fl: "st_failures st = n_failed (st_results st)"
    unfolding accounted_def by blast
  have idx_js: "map idx (st_results st) = js"
    unfolding js(4) using js(3) by (induction js) (auto dest: run_one_idx)
  have outcome: "\<forall>tr \<in> set (st_results st). ?run (idx tr) = Inr tr"
  proof
    fix tr assume "tr \<in> set (st_results st)"
    then obtain j where j: "j \<in> set js" "tr = projr (?run j)" unfolding js(4) by auto
    with js(3) obtain tr' where tr': "?run j = Inr tr'" by blast
    with j(2) have "tr = tr'" by simp
    moreover from tr' have "idx tr' = j" by (rule run_one_idx)
    ultimately show "?run (idx tr) = Inr tr" using tr' by simp
  qed
  from run_batches_submitted [OF rb]
  have sub: "(?stop \<and> st_failures st \<noteq> 0) \<or> st_submitted st = [0 .. trials c - 1]"
    by (simp add: init_state_def)
  show ?thesis
    using fl outcome idx_js js(1,2,5) sub by auto
qed


subsection \<open>The worked examples, evaluated\<close>

lemma demo_lookups:
  "GEN_REGISTRY demo_registries (adversary (demo_claim n b)) = Some gen_fixed"
  "ORACLE_REGISTRY demo_registries (oracle_name (demo_claim n b)) = Some oracle_sort_correctness"
  "IMPL_REGISTRY demo_registries ''identity'' = Some impl_identity"
  "IMPL_REGISTRY demo_registries ''raising'' = Some impl_raising"
  "IMPL_REGISTRY demo_registries ''quicksort3'' = Some impl_quicksort3"
  by (simp_all add: demo_registries_def demo_claim_def)

lemma demo_claim_fields:
  "stop_on_first_failure (demo_claim n b) = b" "trials (demo_claim n b) = n"
  by (simp_all add: demo_claim_def)



lemma demo_run_raising:
  "demo_run impl_raising (demo_claim n b) j = Inl (Raised ''boom'')"
  by (simp add: demo_run_def run_one_def gen_fixed_def impl_raising_def)

lemma demo_loop_run:
  "IMPL_REGISTRY demo_registries impl_name = Some impl \<Longrightarrow>
   demo_loop order impl_name (demo_claim n b) =
     run_batches (demo_run impl (demo_claim n b)) order b n init_state"
  by (simp add: demo_loop_def demo_run_def trial_loop_lookup [OF demo_lookups(1,2)]
      demo_claim_fields)




lemma demo_loop_raising:
  "demo_loop rev ''raising'' (demo_claim 3 False) = Inl (Raised ''boom'')"
  unfolding demo_loop_run [OF demo_lookups(4)]
  by (simp add: run_batches.simps init_state_def batch_def demo_run_raising Let_def upto.simps)






subsection \<open>Failure accounting\<close>




subsection \<open>A trial that raises\<close>

text \<open>
  Claim C2, as stated, at a concrete input. Three trials, no early stop, and an
  implementation that raises in every trial: the evaluation does not record failing
  outcomes and continue, it ends with the exception of a trial and returns no
  \<^verbatim>\<open>ClaimResult\<close>.
\<close>

theorem trial_exception_is_not_recorded:
  "demo_trials rev ''raising'' (demo_claim 3 False) = Inl (Raised ''boom'')"
  using demo_loop_raising by (simp add: demo_trials_def demo_loop_def parallel_trials_def)

text \<open>
  Claim C2, amended. A trial in which the generator, the implementation under test or
  the oracle raises is not recorded as a failing outcome: \<^verbatim>\<open>run_one\<close> lets the
  exception through, and reading that trial's result in the inner loop re-raises it. With
  \<^verbatim>\<open>stop_on_first_failure = false\<close> every trial of the budget is read, so if some trial
  \<open>j\<close> with \<open>0 \<le> j < trials\<close> raises, \<^verbatim>\<open>parallel_trials\<close> ends with the exception of
  a raising trial and returns no \<^verbatim>\<open>ClaimResult\<close>.
\<close>

theorem trial_exception_aborts:
  assumes "\<forall>xs. mset (order xs) = mset xs"
    and "GEN_REGISTRY reg (adversary c) = Some gen"
    and "ORACLE_REGISTRY reg (oracle_name c) = Some orc"
    and "IMPL_REGISTRY reg impl_name = Some impl"
    and "\<not> stop_on_first_failure c"
    and "0 \<le> j" and "j < trials c"
    and "run_one H mk_rng gen impl orc master_seed c j = Inl e"
  shows "(\<exists>k e'. 0 \<le> k \<and> k < trials c
            \<and> run_one H mk_rng gen impl orc master_seed c k = Inl e'
            \<and> parallel_trials H mk_rng order reg c impl_name master_seed = Inl e')
       \<and> collect (run_one H mk_rng gen impl orc master_seed c) stop' n (j # js) st = Inl e"
proof
  let ?run = "run_one H mk_rng gen impl orc master_seed c"
  show "collect ?run stop' n (j # js) st = Inl e" using assms(8) by simp
  show "\<exists>k e'. 0 \<le> k \<and> k < trials c \<and> ?run k = Inl e'
            \<and> parallel_trials H mk_rng order reg c impl_name master_seed = Inl e'"
  proof (cases "trial_loop H mk_rng order reg c impl_name master_seed")
    case (Inl e')
    have sub: "\<And>xs. set (order xs) \<subseteq> set xs" using assms(1) by (metis mset_eq_setD subset_refl)
    from Inl have "run_batches ?run order (stop_on_first_failure c) (trials c) init_state = Inl e'"
      by (simp add: trial_loop_lookup [OF assms(2-4)])
    from run_batches_Inl [OF sub this] obtain k where
      "0 \<le> k" "k < trials c" "?run k = Inl e'" by (auto simp: init_state_def)
    with parallel_trials_Inl [OF Inl] show ?thesis by blast
  next
    case (Inr st')
    from trial_loop_accounted [OF assms(1-4) Inr] assms(5)
    have a: "\<forall>tr \<in> set (st_results st'). ?run (idx tr) = Inr tr"
      and b: "set (map idx (st_results st')) = set [0 .. trials c - 1]"
      by auto
    from assms(6,7) have "j \<in> set [0 .. trials c - 1]" by simp
    with b have "j \<in> idx ` set (st_results st')" by simp
    then obtain tr where "tr \<in> set (st_results st')" "idx tr = j" by blast
    with a assms(8) show ?thesis by auto
  qed
qed

theorem trial_exception_aborts_witness:
  "(\<exists>k e'. 0 \<le> k \<and> k < trials (demo_claim 3 False)
            \<and> demo_run impl_raising (demo_claim 3 False) k = Inl e'
            \<and> demo_trials rev ''raising'' (demo_claim 3 False) = Inl e')
   \<and> demo_run impl_raising (demo_claim 3 False) 1 = Inl (Raised ''boom'')"
proof -
  have p: "\<forall>xs :: int list. mset (rev xs) = mset xs" by simp
  have s: "\<not> stop_on_first_failure (demo_claim 3 False)" "(1::int) < trials (demo_claim 3 False)"
    by (simp_all add: demo_claim_def)
  note r = demo_run_raising [of 3 False 1, unfolded demo_run_def]
  from trial_exception_aborts [OF p demo_lookups(1,2,4) s(1) _ s(2) r] r
  show ?thesis unfolding demo_run_def demo_trials_def by simp
qed

subsection \<open>The full budget\<close>



subsection \<open>Unregistered names\<close>

text \<open>
  Claim C7, as stated, at a concrete input. An unregistered implementation named
  \<^verbatim>\<open>fixed\<close> and an unregistered generator named \<^verbatim>\<open>fixed\<close> end the evaluation with
  the same error, \<^verbatim>\<open>KeyError('fixed')\<close>: the error carries the name and not the kind
  of capability that is missing.
\<close>

theorem unknown_capability_same_error:
  "demo_trials rev ''fixed'' (demo_claim 5 True) = Inl (KeyError ''fixed'')
   \<and> parallel_trials toy_sha (\<lambda>seed. ()) rev (demo_registries\<lparr>GEN_REGISTRY := Map.empty\<rparr>)
        (demo_claim 5 True) ''quicksort3'' ''seed'' = Inl (KeyError ''fixed'')"
  by (simp add: demo_trials_def parallel_trials_def trial_loop_def lookup_def
      demo_registries_def demo_claim_def)

text \<open>
  Claim C7, amended. For every claim whose generator, oracle or implementation name is
  not registered, the evaluation fails with a \<^verbatim>\<open>KeyError\<close> that carries the first
  unregistered name, in the order generator, oracle, implementation. The failure occurs
  at the lookups, before the loops: no trial is submitted, no engine state and no
  \<^verbatim>\<open>ClaimResult\<close> is produced.
\<close>

theorem unknown_capability_raises_KeyError:
  assumes "GEN_REGISTRY reg (adversary c) = None \<or> ORACLE_REGISTRY reg (oracle_name c) = None
      \<or> IMPL_REGISTRY reg impl_name = None"
  shows "parallel_trials H mk_rng order reg c impl_name master_seed =
           Inl (KeyError (if GEN_REGISTRY reg (adversary c) = None then adversary c
                          else if ORACLE_REGISTRY reg (oracle_name c) = None then oracle_name c
                          else impl_name))
       \<and> trial_loop H mk_rng order reg c impl_name master_seed =
           Inl (KeyError (if GEN_REGISTRY reg (adversary c) = None then adversary c
                          else if ORACLE_REGISTRY reg (oracle_name c) = None then oracle_name c
                          else impl_name))"
  using assms
  by (auto simp: parallel_trials_def trial_loop_def lookup_def split: option.splits)

theorem unknown_capability_raises_KeyError_witness:
  "demo_trials rev ''heapsort'' (demo_claim 5 True) = Inl (KeyError ''heapsort'')
   \<and> demo_loop rev ''heapsort'' (demo_claim 5 True) = Inl (KeyError ''heapsort'')"
proof -
  have "IMPL_REGISTRY demo_registries ''heapsort'' = None"
    by (simp add: demo_registries_def)
  then show ?thesis
    using unknown_capability_raises_KeyError [of demo_registries "demo_claim 5 True" "''heapsort''"
        toy_sha "\<lambda>seed. ()" rev "''seed''"]
    by (simp add: demo_trials_def demo_loop_def demo_lookups)
qed

subsection \<open>The bound in the result\<close>



subsection \<open>The 3-way quicksort and the sorting claim\<close>










subsection \<open>The Beta-Bernoulli belief state\<close>






subsection \<open>Seed derivation\<close>





subsection \<open>Canonical certificate hashing\<close>

lemma map_insort_key_fst:
  "(\<And>y. fst (g y) = fst y) \<Longrightarrow> map g (insort_key fst x xs) = insort_key fst (g x) (map g xs)"
  by (induction xs) simp_all

lemma map_sort_key_fst:
  "(\<And>y. fst (g y) = fst y) \<Longrightarrow> map g (sort_key fst xs) = sort_key fst (map g xs)"
  by (induction xs) (simp_all add: map_insort_key_fst)

lemma sort_key_fst_unique:
  fixes xs ys :: "(string \<times> 'a) list"
  assumes "distinct (map fst xs)" and "distinct (map fst ys)" and "set xs = set ys"
  shows "sort_key fst xs = sort_key fst ys"
proof (rule map_sorted_distinct_set_unique [where f = fst])
  show "inj_on fst (set (sort_key fst xs) \<union> set (sort_key fst ys))"
    using assms(1,3) by (simp add: distinct_map)
  show "sorted (map fst (sort_key fst xs))" "sorted (map fst (sort_key fst ys))"
    by simp_all
  have "mset (map fst (sort_key fst xs)) = mset (map fst xs)" by simp
  then show "distinct (map fst (sort_key fst xs))"
    using assms(1) by (metis mset_eq_imp_distinct_iff)
  have "mset (map fst (sort_key fst ys)) = mset (map fst ys)" by simp
  then show "distinct (map fst (sort_key fst ys))"
    using assms(2) by (metis mset_eq_imp_distinct_iff)
  show "set (sort_key fst xs) = set (sort_key fst ys)" using assms(3) by simp
qed

lemma dumps_json_eq: "json_eq a b \<Longrightarrow> dumps float_repr a = dumps float_repr b"
proof (induction rule: json_eq.induct)
  case (List xs ys)
  then have "map (dumps float_repr) xs = map (dumps float_repr) ys"
    by (induction rule: list_all2_induct) simp_all
  then show ?case by simp
next
  case (Dict kvs kvs')
  define g where "g = (\<lambda>(k :: string, v). (k, dumps float_repr v))"
  define h where "h = (\<lambda>(k, s :: string). encode_basestring_ascii k @ '':'' @ s)"
  have fg: "\<And>y. fst (g y) = fst y" by (simp add: g_def split: prod.splits)
  have hg: "(\<lambda>(k, v). encode_basestring_ascii k @ '':'' @ dumps float_repr v) = h \<circ> g"
    by (auto simp: g_def h_def fun_eq_iff)
  have enc: "map (\<lambda>(k, v). encode_basestring_ascii k @ '':'' @ dumps float_repr v) (sort_key fst xs)
      = map h (sort_key fst (map g xs))" for xs
    unfolding hg by (simp add: map_sort_key_fst [OF fg, symmetric])
  have sub: "set (map g xs) \<subseteq> set (map g ys)"
    if "set (map fst xs) \<subseteq> set (map fst ys)"
      and "\<forall>k v v'. (k, v) \<in> set xs \<and> (k, v') \<in> set ys \<longrightarrow> dumps float_repr v = dumps float_repr v'"
    for xs ys
  proof
    fix p assume "p \<in> set (map g xs)"
    then obtain k v where kv: "(k, v) \<in> set xs" "p = (k, dumps float_repr v)"
      by (auto simp: g_def)
    then have "k \<in> set (map fst ys)" using that(1) by force
    then obtain v' where v': "(k, v') \<in> set ys" by auto
    with kv that(2) have "dumps float_repr v = dumps float_repr v'" by blast
    with kv v' show "p \<in> set (map g ys)" by (force simp: g_def)
  qed
  from Dict have keys: "set (map fst kvs) = set (map fst kvs')"
    and ih: "\<forall>k v v'. (k, v) \<in> set kvs \<and> (k, v') \<in> set kvs' \<longrightarrow>
               dumps float_repr v = dumps float_repr v'"
    by blast+
  have ih': "\<forall>k v v'. (k, v) \<in> set kvs' \<and> (k, v') \<in> set kvs \<longrightarrow>
               dumps float_repr v = dumps float_repr v'"
    by (intro allI impI) (metis ih)
  have "set (map g kvs) = set (map g kvs')"
  proof
    show "set (map g kvs) \<subseteq> set (map g kvs')"
      using keys by (intro sub ih) simp
    show "set (map g kvs') \<subseteq> set (map g kvs)"
      using keys by (intro sub ih') simp
  qed
  moreover have "distinct (map fst (map g kvs))" "distinct (map fst (map g kvs'))"
    using Dict(1,2) fg by (simp_all add: comp_def)
  ultimately have "sort_key fst (map g kvs) = sort_key fst (map g kvs')"
    by (intro sort_key_fst_unique)
  then show ?case by (simp only: dumps.simps enc)
qed simp_all

lemma hex_of_alphabet: "set (hex_of bs) \<subseteq> set ''0123456789abcdef''"
proof -
  have d: "hexdigit d \<in> set ''0123456789abcdef''" if "d < 16" for d
    using that unfolding hexdigit_def by (intro nth_mem) simp
  have "set (hex_byte b) \<subseteq> set ''0123456789abcdef''" for b
  proof -
    have "unat b < 2 ^ LENGTH(8)" by (rule unsigned_less)
    then have "unat b div 16 < 16" "unat b mod 16 < 16" by simp_all
    then have "hexdigit (unat b div 16) \<in> set ''0123456789abcdef''"
      "hexdigit (unat b mod 16) \<in> set ''0123456789abcdef''"
      by (simp_all only: d)
    then show ?thesis unfolding hex_byte_def
      by (simp only: list.set insert_subset empty_subsetI simp_thms)
  qed
  then show ?thesis unfolding hex_of_def by (induction bs) simp_all
qed

lemma length_hex_of: "length (hex_of bs) = 2 * length bs"
  by (induction bs) (simp_all add: hex_of_def hex_byte_def)

lemma claim_summaries_eq: "json_eq claim_summary_a claim_summary_b"
  unfolding claim_summary_a_def claim_summary_b_def
  by (auto intro!: json_eq.intros)

lemma demo_certs_eq: "json_eq (asdict (demo_cert claim_summary_a)) (asdict (demo_cert claim_summary_b))"
  unfolding asdict_def demo_cert_def
  by (auto intro!: json_eq.intros claim_summaries_eq)

text \<open>
  Claim C6. The certificate hash is a pure function of the certificate's logical
  content: for any two JSON objects, and any two in-memory certificates, that are equal
  as mappings (their dictionaries may have been filled in different orders),
  \<^verbatim>\<open>certificate_hash_json\<close> and \<^verbatim>\<open>certificate_hash\<close> return the same string; the
  string is \<^verbatim>\<open>0x\<close> followed by lowercase hexadecimal digits, two for each byte of
  the digest; and hashing the same certificate twice gives the same string.
\<close>

theorem certificate_hash_canonical:
  "(json_eq a b \<longrightarrow> certificate_hash_json H float_repr a = certificate_hash_json H float_repr b)
   \<and> (json_eq (asdict c) (asdict d) \<longrightarrow> certificate_hash H float_repr c = certificate_hash H float_repr d)
   \<and> (c = d \<longrightarrow> certificate_hash H float_repr c = certificate_hash H float_repr d)
   \<and> (\<exists>h. certificate_hash H float_repr c = ''0x'' @ h
          \<and> set h \<subseteq> set ''0123456789abcdef''
          \<and> length h = 2 * length (H (utf8_encode (dumps float_repr (asdict c)))))
   \<and> (\<exists>h. certificate_hash_json H float_repr a = ''0x'' @ h
          \<and> set h \<subseteq> set ''0123456789abcdef''
          \<and> length h = 2 * length (H (utf8_encode (dumps float_repr a))))"
  by (auto simp: certificate_hash_def certificate_hash_json_def sha256_hexdigest_def
      sha256_digest_def sha256_update_def sha256_new_def dumps_json_eq hex_of_alphabet length_hex_of
      simp del: set_simps dumps.simps)

theorem certificate_hash_canonical_witness:
  "certificate_hash_json toy_sha (\<lambda>x. ''1.5'') claim_summary_a
     = certificate_hash_json toy_sha (\<lambda>x. ''1.5'') claim_summary_b
   \<and> certificate_hash toy_sha (\<lambda>x. ''1.5'') (demo_cert claim_summary_a)
     = certificate_hash toy_sha (\<lambda>x. ''1.5'') (demo_cert claim_summary_b)
   \<and> claim_summary_a \<noteq> claim_summary_b"
  using certificate_hash_canonical [of claim_summary_a claim_summary_b toy_sha "\<lambda>x. ''1.5''"
      "demo_cert claim_summary_a" "demo_cert claim_summary_b"]
    claim_summaries_eq demo_certs_eq
  by (simp add: claim_summary_a_def claim_summary_b_def)

end
